theory Spec2Isabelle
  imports Main "HOL-Library.Word"
begin

section \<open>The LRU cache of lru.go\<close>

text \<open>
  The cache of \<^verbatim>\<open>lru.go\<close> is a Go struct holding a map from keys to values, a slice
  of keys in recency order (index 0 is the least recently used key), a map from keys to
  the time of their last write, three counters and the options given at construction.
  Every method is modelled as a function from the state before the call to the value
  returned and the state after it. The mutex is not modelled: every statement below is
  about calls that run one after the other.
\<close>

subsection \<open>Bytes, time and errors\<close>

text \<open>
  A Go string and a byte slice are both sequences of bytes, and an Isabelle \<open>char\<close> is
  one byte, so both are \<open>char list\<close> and the conversion \<^verbatim>\<open>string(key)\<close> is the
  identity. Byte slices are taken as values: no statement below is about a caller that
  writes into a slice after handing it to the cache.
\<close>

type_synonym bytes = string

text \<open>
  A \<^verbatim>\<open>time.Duration\<close> is a signed 64-bit count of nanoseconds. A reading of the clock
  is an integer count of nanoseconds, and every method that reads the clock takes the
  reading as its argument \<open>now\<close>. \<^verbatim>\<open>time.Since(t)\<close> is \<^verbatim>\<open>time.Now().Sub(t)\<close>, and
  \<^verbatim>\<open>Sub\<close> returns the largest or the smallest duration when the difference does not
  fit. A key with no entry in the map of timestamps reads as the zero \<^verbatim>\<open>Time\<close>, the
  year 1, which is further in the past than the largest duration.
\<close>

definition maxDuration :: int where
  "maxDuration = 2 ^ 63 - 1"

definition minDuration :: int where
  "minDuration = - (2 ^ 63)"

definition Sub :: "int \<Rightarrow> int \<Rightarrow> int" where
  "Sub t u =
     (if t - u > maxDuration then maxDuration
      else if t - u < minDuration then minDuration
      else t - u)"

fun Since :: "int \<Rightarrow> int option \<Rightarrow> int" where
  "Since now (Some t) = Sub now t"
| "Since now None = maxDuration"

text \<open>
  Modelled from the spec: the error values \<^verbatim>\<open>util.KeyNotFoundError\<close> and
  \<^verbatim>\<open>util.ExpiredKeyError\<close> come from a package that is not among the sources; each
  carries the key, as the struct literals in \<^verbatim>\<open>Get\<close> and the spec's error taxonomy
  (\<^verbatim>\<open>NotFound{key}\<close>, \<^verbatim>\<open>Expired{key}\<close>) say.
\<close>

datatype error = KeyNotFoundError string | ExpiredKeyError string

subsection \<open>The state\<close>

text \<open>
  \<open>OnEvict\<close> tells whether the callback is not nil. The callback is the caller's code;
  what the cache does with it is to call it, so the state records the arguments of every
  call, oldest first, in \<open>OnEvict_calls\<close>. The callback runs while the lock of the cache
  is held, so it cannot call a method of the cache and return. The counters are Go
  \<^verbatim>\<open>int\<close>s, 64 bits wide on 64-bit platforms, read as two's complement by \<open>sint\<close>;
  \<^verbatim>\<open>c.hits++\<close> wraps around. \<open>Capacity\<close> and \<open>TTL\<close> are only ever compared, so
  they are integers.
\<close>

record CacheOpts =
  Capacity :: int
  TTL :: int
  OnEvict :: bool

record Cache = CacheOpts +
  items :: "string \<rightharpoonup> bytes"
  order :: "string list"
  hits :: "64 word"
  misses :: "64 word"
  evictions :: "64 word"
  timestamps :: "string \<rightharpoonup> int"
  OnEvict_calls :: "(string \<times> bytes) list"

definition NewCache :: "CacheOpts \<Rightarrow> Cache" where
  "NewCache opts =
     \<lparr>Capacity = Capacity opts, TTL = TTL opts, OnEvict = OnEvict opts,
      items = Map.empty, order = [], hits = 0, misses = 0, evictions = 0,
      timestamps = Map.empty, OnEvict_calls = []\<rparr>"

text \<open>
  \<^verbatim>\<open>len(c.items)\<close>: the number of keys of the map. A Go map is finite, and so is the
  map of every state built from \<open>NewCache\<close> by the methods (lemma \<open>invar_run\<close> below).
\<close>

definition len_items :: "Cache \<Rightarrow> int" where
  "len_items c = int (card (dom (items c)))"

subsection \<open>The internal methods\<close>

text \<open>
  \<^verbatim>\<open>remove\<close>: when the key is in the map, delete it from both maps, call the callback
  when there is one, and cut the first occurrence of the key out of the order slice
  (the loop stops at the first match, which is what \<open>remove1\<close> does).
\<close>

definition remove_key :: "Cache \<Rightarrow> string \<Rightarrow> Cache" where
  "remove_key c key =
     (case items c key of
        Some v \<Rightarrow>
          c\<lparr>items := (items c)(key := None),
            timestamps := (timestamps c)(key := None),
            OnEvict_calls :=
              (if OnEvict c then OnEvict_calls c @ [(key, v)] else OnEvict_calls c),
            order := remove1 key (order c)\<rparr>
      | None \<Rightarrow> c)"

text \<open>\<^verbatim>\<open>evict\<close>: nothing on an empty order slice; otherwise remove its first key and count.\<close>

definition evict :: "Cache \<Rightarrow> Cache" where
  "evict c =
     (case order c of
        [] \<Rightarrow> c
      | oldestKey # _ \<Rightarrow>
          (remove_key c oldestKey)\<lparr>evictions := evictions (remove_key c oldestKey) + 1\<rparr>)"

text \<open>\<^verbatim>\<open>updateOrder\<close>: cut the first occurrence of the key out, then append the key.\<close>

definition updateOrder :: "Cache \<Rightarrow> string \<Rightarrow> Cache" where
  "updateOrder c key = c\<lparr>order := remove1 key (order c) @ [key]\<rparr>"

subsection \<open>The public methods\<close>

definition Get :: "Cache \<Rightarrow> int \<Rightarrow> bytes \<Rightarrow> (error + bytes) \<times> Cache" where
  "Get c now key =
     (case items c key of
        Some v \<Rightarrow>
          if TTL c > 0 \<and> Since now (timestamps c key) > TTL c
          then (Inl (ExpiredKeyError key),
                (remove_key c key)\<lparr>misses := misses (remove_key c key) + 1\<rparr>)
          else (Inr v, updateOrder (c\<lparr>hits := hits c + 1\<rparr>) key)
      | None \<Rightarrow> (Inl (KeyNotFoundError key), c\<lparr>misses := misses c + 1\<rparr>))"

text \<open>\<^verbatim>\<open>Put\<close> returns an error value that is nil on every path.\<close>

definition Put :: "Cache \<Rightarrow> int \<Rightarrow> bytes \<Rightarrow> bytes \<Rightarrow> error option \<times> Cache" where
  "Put c now key v =
     (case items c key of
        Some _ \<Rightarrow>
          (None,
           updateOrder
             (c\<lparr>items := (items c)(key \<mapsto> v), timestamps := (timestamps c)(key \<mapsto> now)\<rparr>)
             key)
      | None \<Rightarrow>
          (let c1 = (if len_items c \<ge> Capacity c then evict c else c)
           in (None,
               c1\<lparr>items := (items c1)(key \<mapsto> v),
                  timestamps := (timestamps c1)(key \<mapsto> now),
                  order := order c1 @ [key]\<rparr>)))"

text \<open>\<^verbatim>\<open>Has\<close> and \<^verbatim>\<open>Stats\<close> assign to no field: the state after the call is the state before.\<close>

definition Has :: "Cache \<Rightarrow> int \<Rightarrow> bytes \<Rightarrow> bool \<times> Cache" where
  "Has c now key =
     (case items c key of
        Some _ \<Rightarrow>
          if TTL c > 0 \<and> Since now (timestamps c key) > TTL c
          then (False, c)
          else (True, c)
      | None \<Rightarrow> (False, c))"

definition Stats :: "Cache \<Rightarrow> (64 word \<times> 64 word \<times> 64 word) \<times> Cache" where
  "Stats c = ((hits c, misses c, evictions c), c)"

subsection \<open>Sequences of calls\<close>

text \<open>
  A call of one of the four public methods, with the reading of the clock at the call,
  and what it returns. \<open>run\<close> is the state after a sequence of calls and \<open>replies\<close> the
  values they returned.
\<close>

datatype call = PutCall bytes bytes | GetCall bytes | HasCall bytes | StatsCall

datatype reply =
    PutReply "error option"
  | GetReply "error + bytes"
  | HasReply bool
  | StatsReply "64 word \<times> 64 word \<times> 64 word"

fun apply_call :: "Cache \<Rightarrow> int \<times> call \<Rightarrow> reply \<times> Cache" where
  "apply_call c (now, PutCall key v) = (PutReply (fst (Put c now key v)), snd (Put c now key v))"
| "apply_call c (now, GetCall key) = (GetReply (fst (Get c now key)), snd (Get c now key))"
| "apply_call c (now, HasCall key) = (HasReply (fst (Has c now key)), snd (Has c now key))"
| "apply_call c (now, StatsCall) = (StatsReply (fst (Stats c)), snd (Stats c))"

fun run :: "Cache \<Rightarrow> (int \<times> call) list \<Rightarrow> Cache" where
  "run c [] = c"
| "run c (x # xs) = run (snd (apply_call c x)) xs"

fun replies :: "Cache \<Rightarrow> (int \<times> call) list \<Rightarrow> reply list" where
  "replies c [] = []"
| "replies c (x # xs) = fst (apply_call c x) # replies (snd (apply_call c x)) xs"


subsection \<open>The events that the counters count\<close>

text \<open>
  A reply is a hit when it is the value of a \<^verbatim>\<open>Get\<close> that succeeded, and a miss when it
  is the error of one that failed. A call evicts when it is a \<^verbatim>\<open>Put\<close> of a key that is
  not in the map, the map holds at least \<open>Capacity\<close> keys, and the order slice has a key
  to give up. \<open>evictions_in c xs\<close> counts the calls of \<open>xs\<close> that evict, run from \<open>c\<close>.
\<close>

fun is_hit :: "reply \<Rightarrow> bool" where
  "is_hit (GetReply (Inr _)) = True"
| "is_hit _ = False"

fun is_miss :: "reply \<Rightarrow> bool" where
  "is_miss (GetReply (Inl _)) = True"
| "is_miss _ = False"

fun evicting :: "Cache \<Rightarrow> int \<times> call \<Rightarrow> bool" where
  "evicting c (now, PutCall key v) =
     (items c key = None \<and> len_items c \<ge> Capacity c \<and> order c \<noteq> [])"
| "evicting c (now, _) = False"

fun evictions_in :: "Cache \<Rightarrow> (int \<times> call) list \<Rightarrow> nat" where
  "evictions_in c [] = 0"
| "evictions_in c (x # xs) =
     (if evicting c x then 1 else 0) + evictions_in (snd (apply_call c x)) xs"

subsection \<open>The invariant of the representation\<close>

text \<open>
  Between calls the map is finite, the order slice lists the keys of the map, each once,
  and the map of timestamps has the same keys.
\<close>

definition invar :: "Cache \<Rightarrow> bool" where
  "invar c =
     (finite (dom (items c)) \<and> set (order c) = dom (items c) \<and> distinct (order c) \<and>
      dom (timestamps c) = dom (items c))"

section \<open>Properties\<close>

lemmas method_defs =
  NewCache_def Put_def Get_def Has_def Stats_def evict_def remove_key_def updateOrder_def
  len_items_def

lemmas time_defs = Sub_def maxDuration_def minDuration_def

subsection \<open>The invariant holds between calls\<close>

lemma invar_NewCache: "invar (NewCache opts)"
  by (simp add: invar_def NewCache_def)

lemma invar_remove_key: "invar c \<Longrightarrow> invar (remove_key c key)"
  by (auto simp: invar_def remove_key_def split: option.splits)

lemma invar_evict: "invar c \<Longrightarrow> invar (evict c)"
  using invar_remove_key [of c] by (auto simp: evict_def invar_def split: list.splits)

lemma invar_updateOrder: "invar c \<Longrightarrow> items c key \<noteq> None \<Longrightarrow> invar (updateOrder c key)"
  by (auto simp: invar_def updateOrder_def)

lemma invar_Get: "invar c \<Longrightarrow> invar (snd (Get c now key))"
  using invar_remove_key [of c key] invar_updateOrder [of "c\<lparr>hits := hits c + 1\<rparr>" key]
  by (auto simp: Get_def invar_def split: option.splits)

lemma items_evict_None: "items c key = None \<Longrightarrow> items (evict c) key = None"
  by (auto simp: evict_def remove_key_def split: list.splits option.splits)

lemma invar_Put: "invar c \<Longrightarrow> invar (snd (Put c now key v))"
proof (cases "items c key")
  case None
  assume inv: "invar c"
  define c1 where "c1 = (if len_items c \<ge> Capacity c then evict c else c)"
  have "invar c1" and "items c1 key = None"
    using inv None by (auto simp: c1_def invar_evict items_evict_None)
  then show ?thesis
    using None unfolding Put_def c1_def [symmetric]
    by (auto simp: invar_def Let_def)
next
  case (Some old)
  assume inv: "invar c"
  then show ?thesis
    using Some by (auto simp: Put_def invar_def updateOrder_def)
qed

lemma invar_apply_call: "invar c \<Longrightarrow> invar (snd (apply_call c x))"
  by (cases x; cases "snd x") (auto simp: invar_Get invar_Put Has_def Stats_def split: option.splits)

lemma invar_run: "invar c \<Longrightarrow> invar (run c xs)"
  by (induction xs arbitrary: c) (auto simp: invar_apply_call)


subsection \<open>The options never change\<close>

lemma opts_remove_key:
  "Capacity (remove_key c key) = Capacity c" "TTL (remove_key c key) = TTL c"
  "OnEvict (remove_key c key) = OnEvict c"
  by (simp_all add: remove_key_def split: option.splits)

lemma opts_evict:
  "Capacity (evict c) = Capacity c" "TTL (evict c) = TTL c" "OnEvict (evict c) = OnEvict c"
  by (simp_all add: evict_def opts_remove_key split: list.splits)

lemma opts_Get:
  "Capacity (snd (Get c now key)) = Capacity c" "TTL (snd (Get c now key)) = TTL c"
  "OnEvict (snd (Get c now key)) = OnEvict c"
  by (simp_all add: Get_def updateOrder_def opts_remove_key split: option.splits)

lemma opts_Put:
  "Capacity (snd (Put c now key v)) = Capacity c" "TTL (snd (Put c now key v)) = TTL c"
  "OnEvict (snd (Put c now key v)) = OnEvict c"
  by (simp_all add: Put_def updateOrder_def opts_evict Let_def split: option.splits)

lemma opts_apply_call:
  "Capacity (snd (apply_call c x)) = Capacity c" "TTL (snd (apply_call c x)) = TTL c"
  "OnEvict (snd (apply_call c x)) = OnEvict c"
  by (cases x; cases "snd x"; simp add: opts_Get opts_Put Has_def Stats_def split: option.splits)+

lemma opts_run:
  "Capacity (run c xs) = Capacity c" "TTL (run c xs) = TTL c" "OnEvict (run c xs) = OnEvict c"
  by (induction xs arbitrary: c; simp add: opts_apply_call)+

subsection \<open>The size of the map\<close>

lemma len_remove_key:
  "invar c \<Longrightarrow> items c key = Some v \<Longrightarrow> len_items (remove_key c key) = len_items c - 1"
proof -
  assume inv: "invar c" and some: "items c key = Some v"
  have fin: "finite (dom (items c))" and mem: "key \<in> dom (items c)"
    using inv some by (auto simp: invar_def)
  have "card (dom (items c) - {key}) = card (dom (items c)) - 1"
    using fin mem by simp
  moreover have "0 < card (dom (items c))"
    using fin mem by (auto simp: card_gt_0_iff)
  ultimately show ?thesis
    using some by (simp add: len_items_def remove_key_def)
qed

lemma len_evict:
  "invar c \<Longrightarrow> order c \<noteq> [] \<Longrightarrow> len_items (evict c) = len_items c - 1"
proof -
  assume inv: "invar c" and ne: "order c \<noteq> []"
  then obtain k ks where ord: "order c = k # ks" by (cases "order c") auto
  with inv obtain v where "items c k = Some v" by (auto simp: invar_def)
  with inv ord show ?thesis
    using len_remove_key [of c k v] by (simp add: evict_def len_items_def)
qed

lemma len_items_pos_order: "invar c \<Longrightarrow> 0 < len_items c \<Longrightarrow> order c \<noteq> []"
  by (auto simp: invar_def len_items_def)

lemma len_insert_new:
  "invar c \<Longrightarrow> items c key = None \<Longrightarrow>
   len_items (c\<lparr>items := (items c)(key \<mapsto> v), timestamps := ts, order := ks\<rparr>) = len_items c + 1"
  by (simp add: invar_def len_items_def card_insert_if domIff)

lemma len_Get: "invar c \<Longrightarrow> len_items (snd (Get c now key)) \<le> len_items c"
  using len_remove_key [of c key]
  by (auto simp: Get_def updateOrder_def len_items_def split: option.splits)

lemma len_Put:
  assumes "invar c" "0 < Capacity c" "len_items c \<le> Capacity c"
  shows "len_items (snd (Put c now key v)) \<le> Capacity c"
proof (cases "items c key")
  case (Some old)
  then have "dom (items (snd (Put c now key v))) = dom (items c)"
    by (auto simp: Put_def updateOrder_def)
  with assms show ?thesis by (simp add: len_items_def)
next
  case None
  define c1 where "c1 = (if len_items c \<ge> Capacity c then evict c else c)"
  have inv1: "invar c1" and none1: "items c1 key = None"
    using assms None by (auto simp: c1_def invar_evict items_evict_None)
  have "len_items c1 < Capacity c"
  proof (cases "len_items c \<ge> Capacity c")
    case True
    with assms have "order c \<noteq> []" by (intro len_items_pos_order) auto
    with assms True show ?thesis by (simp add: c1_def len_evict)
  next
    case False
    then show ?thesis by (simp add: c1_def)
  qed
  moreover have "snd (Put c now key v) =
      c1\<lparr>items := (items c1)(key \<mapsto> v), timestamps := (timestamps c1)(key \<mapsto> now),
         order := order c1 @ [key]\<rparr>"
    using None by (simp add: Put_def c1_def Let_def)
  ultimately show ?thesis
    using len_insert_new [OF inv1 none1] by simp
qed

lemma len_apply_call:
  assumes "invar c" "0 < Capacity c" "len_items c \<le> Capacity c"
  shows "len_items (snd (apply_call c x)) \<le> Capacity c"
proof (cases x)
  case (Pair now cl)
  show ?thesis
  proof (cases cl)
    case (PutCall key v)
    with Pair assms show ?thesis by (simp add: len_Put)
  next
    case (GetCall key)
    with Pair assms show ?thesis using len_Get [of c now key] by simp
  next
    case (HasCall key)
    with Pair assms show ?thesis by (simp add: Has_def split: option.splits)
  next
    case StatsCall
    with Pair assms show ?thesis by (simp add: Stats_def)
  qed
qed

lemma len_run:
  "invar c \<Longrightarrow> 0 < Capacity c \<Longrightarrow> len_items c \<le> Capacity c \<Longrightarrow>
   len_items (run c xs) \<le> Capacity c"
proof (induction xs arbitrary: c)
  case Nil
  then show ?case by simp
next
  case (Cons x xs)
  have "len_items (run (snd (apply_call c x)) xs) \<le> Capacity (snd (apply_call c x))"
    using Cons.prems
    by (intro Cons.IH) (simp_all add: invar_apply_call opts_apply_call len_apply_call)
  then show ?case by (simp add: opts_apply_call)
qed

subsection \<open>The counters\<close>

text \<open>
  A count below \<open>2 ^ 63\<close> is read back from a 64-bit counter unchanged. Each call adds
  one to a counter exactly when its event happens, so after a run each counter is its
  first value plus the number of events, in 64-bit arithmetic.
\<close>

lemma sint_of_nat_small: "n < 2 ^ 63 \<Longrightarrow> sint (of_nat n :: 64 word) = int n"
proof -
  assume "n < 2 ^ 63"
  then have "int n < 2 ^ 63"
    by (metis of_nat_less_iff of_nat_numeral of_nat_power)
  then have "signed_take_bit 63 (int n) = int n"
    by (intro signed_take_bit_int_eq_self) simp_all
  moreover have "sint (of_nat n :: 64 word) = signed_take_bit 63 (int n)"
    by (simp add: signed_of_nat)
  ultimately show ?thesis by simp
qed

lemma run_append: "run c (xs @ ys) = run (run c xs) ys"
  by (induction xs arbitrary: c) simp_all

lemma replies_append: "replies c (xs @ ys) = replies c xs @ replies (run c xs) ys"
  by (induction xs arbitrary: c) simp_all

lemma evictions_in_append:
  "evictions_in c (xs @ ys) = evictions_in c xs + evictions_in (run c xs) ys"
  by (induction xs arbitrary: c) simp_all

lemma length_replies: "length (replies c xs) = length xs"
  by (induction xs arbitrary: c) simp_all

lemma evictions_in_le: "evictions_in c xs \<le> length xs"
  by (induction xs arbitrary: c) (simp_all add: le_SucI)

lemma evictions_remove_key: "evictions (remove_key c key) = evictions c"
  by (simp add: remove_key_def split: option.splits)

lemma hits_remove_key: "hits (remove_key c key) = hits c"
  by (simp add: remove_key_def split: option.splits)

lemma misses_remove_key: "misses (remove_key c key) = misses c"
  by (simp add: remove_key_def split: option.splits)

lemma hits_evict: "hits (evict c) = hits c"
  by (simp add: evict_def hits_remove_key split: list.splits)

lemma misses_evict: "misses (evict c) = misses c"
  by (simp add: evict_def misses_remove_key split: list.splits)

lemma evictions_evict:
  "evictions (evict c) = (if order c = [] then evictions c else evictions c + 1)"
  by (simp add: evict_def evictions_remove_key split: list.splits)

lemma hits_apply_call:
  "hits (snd (apply_call c x)) = hits c + (if is_hit (fst (apply_call c x)) then 1 else 0)"
proof (cases x)
  case (Pair now cl)
  then show ?thesis
    by (cases cl)
      (simp_all add: Get_def Put_def Has_def Stats_def updateOrder_def hits_remove_key hits_evict
        Let_def split: option.splits)
qed

lemma misses_apply_call:
  "misses (snd (apply_call c x)) = misses c + (if is_miss (fst (apply_call c x)) then 1 else 0)"
proof (cases x)
  case (Pair now cl)
  then show ?thesis
    by (cases cl)
      (simp_all add: Get_def Put_def Has_def Stats_def updateOrder_def misses_remove_key
        misses_evict Let_def split: option.splits)
qed

lemma evictions_apply_call:
  "evictions (snd (apply_call c x)) = evictions c + (if evicting c x then 1 else 0)"
proof (cases x)
  case (Pair now cl)
  then show ?thesis
    by (cases cl)
      (simp_all add: Get_def Put_def Has_def Stats_def updateOrder_def evictions_remove_key
        evictions_evict Let_def split: option.splits)
qed

lemma hits_run: "hits (run c xs) = hits c + of_nat (length (filter is_hit (replies c xs)))"
  by (induction xs arbitrary: c) (simp_all add: hits_apply_call)

lemma misses_run: "misses (run c xs) = misses c + of_nat (length (filter is_miss (replies c xs)))"
  by (induction xs arbitrary: c) (simp_all add: misses_apply_call)

lemma evictions_run: "evictions (run c xs) = evictions c + of_nat (evictions_in c xs)"
  by (induction xs arbitrary: c) (simp_all add: evictions_apply_call)

text \<open>
  A \<open>Get\<close> of a key that is not in the map, repeated \<open>n\<close> times, adds \<open>n\<close> to the count
  of misses and changes nothing else.
\<close>

lemma run_failing_Gets:
  "items c key = None \<Longrightarrow>
   run c (replicate n (now, GetCall key)) = c\<lparr>misses := misses c + of_nat n\<rparr>"
proof (induction n arbitrary: c)
  case 0
  then show ?case by simp
next
  case (Suc n)
  have "items (c\<lparr>misses := misses c + 1\<rparr>) key = None"
    using Suc.prems by simp
  from Suc.IH [OF this] Suc.prems show ?case
    by (simp add: Get_def add.assoc add.commute)
qed

subsection \<open>Eviction\<close>

text \<open>
  What \<open>evict\<close> does to a state that satisfies the invariant, and what a \<open>Put\<close> leaves
  in the map when the capacity is zero and the map holds at most one key.
\<close>

lemma calls_evict:
  "order c = k # ks \<Longrightarrow> items c k = Some w \<Longrightarrow>
   OnEvict_calls (evict c) = (if OnEvict c then OnEvict_calls c @ [(k, w)] else OnEvict_calls c)"
  by (simp add: evict_def remove_key_def)

lemma map_single_key:
  assumes "invar c" "len_items c \<le> 1" "items c k = Some w"
  shows "(items c)(k := None) = Map.empty"
proof -
  have fin: "finite (dom (items c))" and card: "card (dom (items c)) \<le> Suc 0"
    using assms by (simp_all add: invar_def len_items_def)
  have "k \<in> dom (items c)"
    using assms(3) by auto
  then have "dom (items c) = {k}"
    using fin card by (auto simp: card_le_Suc0_iff_eq)
  then have "dom ((items c)(k := None)) = {}"
    by simp
  then show ?thesis
    by (simp only: dom_eq_empty_conv)
qed

lemma evict_empty_order: "order c = [] \<Longrightarrow> evict c = c"
  by (simp add: evict_def)

lemma evict_first:
  assumes "invar c" "order c \<noteq> []"
  shows "items c (hd (order c)) \<noteq> None \<and>
         items (evict c) = (items c)(hd (order c) := None) \<and>
         order (evict c) = tl (order c)"
proof -
  obtain k ks where ord: "order c = k # ks"
    using assms(2) by (cases "order c") auto
  then obtain w where "items c k = Some w"
    using assms(1) by (auto simp: invar_def)
  with ord show ?thesis
    by (simp add: evict_def remove_key_def)
qed

lemma items_Put_zero:
  assumes "invar c" "Capacity c = 0" "len_items c \<le> 1"
  shows "items (snd (Put c now key v)) = [key \<mapsto> v]"
proof (cases "items c key")
  case (Some old)
  have "(items c)(key \<mapsto> v) = ((items c)(key := None))(key \<mapsto> v)"
    by simp
  also have "\<dots> = [key \<mapsto> v]"
    using map_single_key [OF assms(1,3) Some] by simp
  finally show ?thesis
    using Some by (simp add: Put_def updateOrder_def)
next
  case None
  have full: "len_items c \<ge> Capacity c"
    using assms(2) by (simp add: len_items_def)
  have "items (evict c) = Map.empty"
  proof (cases "order c")
    case Nil
    then have "dom (items c) = {}"
      using assms(1) by (auto simp: invar_def)
    with Nil show ?thesis
      by (simp add: evict_empty_order)
  next
    case (Cons k ks)
    then obtain w where w: "items c k = Some w"
      using assms(1) by (auto simp: invar_def)
    have "items (evict c) = (items c)(k := None)"
      using Cons w by (simp add: evict_def remove_key_def)
    then show ?thesis
      using map_single_key [OF assms(1,3) w] by simp
  qed
  then show ?thesis
    using None full by (simp add: Put_def Let_def)
qed

lemma len_Put_zero:
  assumes "invar c" "Capacity c = 0" "len_items c \<le> 1"
  shows "len_items (snd (Put c now key v)) = 1"
  using items_Put_zero [OF assms, of now key v] by (simp add: len_items_def)

lemma len_run_zero:
  "invar c \<Longrightarrow> Capacity c = 0 \<Longrightarrow> len_items c \<le> 1 \<Longrightarrow> len_items (run c xs) \<le> 1"
proof (induction xs arbitrary: c)
  case Nil
  then show ?case by simp
next
  case (Cons x xs)
  obtain now cl where x: "x = (now, cl)" by (cases x)
  have "len_items (snd (apply_call c x)) \<le> 1"
  proof (cases cl)
    case (PutCall key v)
    with x Cons.prems show ?thesis by (simp add: len_Put_zero)
  next
    case (GetCall key)
    with x Cons.prems show ?thesis using len_Get [of c now key] by simp
  next
    case (HasCall key)
    with x Cons.prems show ?thesis by (simp add: Has_def split: option.splits)
  next
    case StatsCall
    with x Cons.prems show ?thesis by (simp add: Stats_def)
  qed
  with Cons.prems show ?case
    by (simp add: Cons.IH invar_apply_call opts_apply_call)
qed

section \<open>The claims\<close>

text \<open>
  C1. Capacity 2, no TTL, a callback: after \<open>Put(a,1)\<close>, \<open>Put(b,2)\<close>, \<open>Put(c,3)\<close> the key
  \<open>a\<close> is gone and the callback was called once, with \<open>(a, 1)\<close>; \<open>Get(a)\<close> fails with
  the not-found error; \<open>Get(b)\<close> returns \<open>2\<close> and leaves \<open>b\<close> at the most recently used
  end; \<open>Put(d,4)\<close> then evicts \<open>c\<close> and keeps \<open>b\<close>. The readings of the clock are
  arbitrary.
\<close>

theorem scenario_capacity_2:
  "(let c0 = NewCache \<lparr>Capacity = 2, TTL = 0, OnEvict = True\<rparr>;
        c1 = snd (Put c0 t1 ''a'' ''1'');
        c2 = snd (Put c1 t2 ''b'' ''2'');
        c3 = snd (Put c2 t3 ''c'' ''3'');
        (r4, c4) = Get c3 t4 ''a'';
        (r5, c5) = Get c4 t5 ''b'';
        c6 = snd (Put c5 t6 ''d'' ''4'')
    in order c2 = [''a'', ''b''] \<and> OnEvict_calls c2 = [] \<and>
       dom (items c3) = {''b'', ''c''} \<and> order c3 = [''b'', ''c''] \<and>
       OnEvict_calls c3 = [(''a'', ''1'')] \<and> evictions c3 = 1 \<and>
       r4 = Inl (KeyNotFoundError ''a'') \<and>
       r5 = Inr ''2'' \<and> order c5 = [''c'', ''b''] \<and>
       dom (items c6) = {''b'', ''d''} \<and> items c6 ''b'' = Some ''2'' \<and>
       items c6 ''c'' = None \<and> order c6 = [''b'', ''d''] \<and>
       OnEvict_calls c6 = [(''a'', ''1''), (''c'', ''3'')] \<and> evictions c6 = 2)"
  by (simp add: method_defs Let_def insert_commute)

text \<open>
  C2. With a capacity above zero, after any sequence of calls from a fresh cache the map
  holds at most \<open>Capacity\<close> keys. The sequence is arbitrary, so this is the size after
  each of its calls.
\<close>

theorem capacity_bound:
  "0 < Capacity opts \<Longrightarrow> len_items (run (NewCache opts) calls) \<le> Capacity opts"
proof -
  assume pos: "0 < Capacity opts"
  have "len_items (run (NewCache opts) calls) \<le> Capacity (NewCache opts)"
    using pos by (intro len_run invar_NewCache) (simp_all add: NewCache_def len_items_def)
  then show ?thesis by (simp add: NewCache_def)
qed

theorem capacity_bound_witness:
  "(0::int) < 2 \<and>
   len_items (run (NewCache \<lparr>Capacity = 2, TTL = 0, OnEvict = True\<rparr>)
     [(0, PutCall ''a'' ''1''), (1, PutCall ''b'' ''2''), (2, PutCall ''c'' ''3'')]) = 2 \<and>
   len_items (run (NewCache \<lparr>Capacity = 2, TTL = 0, OnEvict = True\<rparr>)
     [(0, PutCall ''a'' ''1''), (1, PutCall ''b'' ''2''), (2, PutCall ''c'' ''3'')]) \<le> 2"
proof -
  have h: "0 < Capacity \<lparr>Capacity = 2, TTL = 0, OnEvict = True\<rparr>" by simp
  show ?thesis
    using capacity_bound [OF h, of "[(0, PutCall ''a'' ''1''), (1, PutCall ''b'' ''2''), (2, PutCall ''c'' ''3'')]"]
    by (simp add: method_defs)
qed

text \<open>
  C3. After any sequence of calls from a fresh cache, the order slice holds exactly the
  keys of the map, each of them once.
\<close>

theorem order_matches_store:
  "set (order (run (NewCache opts) calls)) = dom (items (run (NewCache opts) calls)) \<and>
   distinct (order (run (NewCache opts) calls))"
  using invar_run [OF invar_NewCache, of opts calls] by (simp add: invar_def)

text \<open>
  C4. In a state reached from a fresh cache with a TTL above zero, \<open>Get\<close> of a key that
  is in the map, and whose time since the last write (as \<^verbatim>\<open>time.Since\<close> measures it)
  is above the TTL, fails with the expired error for that key; the key is gone from the
  map, from the timestamps and from the order slice; the callback, when there is one,
  is called once more, with the key and the value that was stored; the count of misses
  goes up by one and the count of hits stays.
\<close>

theorem Get_expired:
  assumes "c = run (NewCache opts) calls"
    and "TTL c > 0"
    and "items c key = Some v"
    and "Since now (timestamps c key) > TTL c"
  shows "fst (Get c now key) = Inl (ExpiredKeyError key) \<and>
         items (snd (Get c now key)) = (items c)(key := None) \<and>
         timestamps (snd (Get c now key)) = (timestamps c)(key := None) \<and>
         order (snd (Get c now key)) = remove1 key (order c) \<and>
         key \<notin> set (order (snd (Get c now key))) \<and>
         OnEvict_calls (snd (Get c now key)) =
           (if OnEvict c then OnEvict_calls c @ [(key, v)] else OnEvict_calls c) \<and>
         misses (snd (Get c now key)) = misses c + 1 \<and>
         hits (snd (Get c now key)) = hits c"
proof -
  have "invar c"
    using assms(1) by (simp add: invar_run invar_NewCache)
  then have "distinct (order c)"
    by (simp add: invar_def)
  then have "key \<notin> set (remove1 key (order c))"
    by simp
  then show ?thesis
    using assms(2-4) by (simp add: Get_def remove_key_def)
qed

theorem Get_expired_witness:
  "(let c = run (NewCache \<lparr>Capacity = 10, TTL = 50000000, OnEvict = True\<rparr>)
              [(0, PutCall ''x'' ''v'')]
    in TTL c > 0 \<and> items c ''x'' = Some ''v'' \<and>
       Since 60000000 (timestamps c ''x'') > TTL c \<and>
       fst (Get c 60000000 ''x'') = Inl (ExpiredKeyError ''x'') \<and>
       items (snd (Get c 60000000 ''x'')) ''x'' = None \<and>
       timestamps (snd (Get c 60000000 ''x'')) ''x'' = None \<and>
       order (snd (Get c 60000000 ''x'')) = [] \<and>
       OnEvict_calls (snd (Get c 60000000 ''x'')) = [(''x'', ''v'')] \<and>
       misses (snd (Get c 60000000 ''x'')) = 1)"
proof -
  define c where
    "c = run (NewCache \<lparr>Capacity = 10, TTL = 50000000, OnEvict = True\<rparr>) [(0, PutCall ''x'' ''v'')]"
  have h1: "TTL c > 0"
    and h2: "items c ''x'' = Some ''v''"
    and h3: "Since 60000000 (timestamps c ''x'') > TTL c"
    and rest: "order c = [''x'']" "OnEvict c" "OnEvict_calls c = []" "misses c = 0"
    by (simp_all add: c_def method_defs time_defs)
  show ?thesis
    using Get_expired [OF c_def h1 h2 h3] h1 h2 h3 rest
    unfolding c_def [symmetric] Let_def by simp
qed

text \<open>
  C5. In every state, \<open>Has\<close> returns true exactly when the key is in the map and it is
  not the case that the TTL is above zero and the time since the last write is above it.
  The state after the call is the state before it: the map, the order slice, the
  timestamps, the counters and the record of callback calls are what they were, also for
  an expired key.
\<close>

theorem Has_pure:
  "Has c now key =
     (items c key \<noteq> None \<and> \<not> (TTL c > 0 \<and> Since now (timestamps c key) > TTL c), c)"
  by (simp add: Has_def split: option.splits)

theorem Has_pure_witness:
  "(let c = run (NewCache \<lparr>Capacity = 10, TTL = 50000000, OnEvict = True\<rparr>)
              [(0, PutCall ''x'' ''v'')]
    in Has c 10000000 ''x'' = (True, c) \<and>
       Has c 60000000 ''x'' = (False, c) \<and>
       Has c 60000000 ''y'' = (False, c) \<and>
       OnEvict_calls (snd (Has c 60000000 ''x'')) = [] \<and>
       fst (Get (snd (Has c 60000000 ''x'')) 60000000 ''x'') = Inl (ExpiredKeyError ''x'') \<and>
       OnEvict_calls (snd (Get (snd (Has c 60000000 ''x'')) 60000000 ''x'')) = [(''x'', ''v'')])"
  unfolding Has_pure Let_def by (simp add: method_defs time_defs)

text \<open>
  C6. In every state where the key is in the map, \<open>Put\<close> stores the new value and the
  new time of writing for it, moves the key to the end of the order slice, and returns no
  error; the keys of the map are the same, so no entry is evicted, whatever the size of
  the map; the counters and the record of callback calls are unchanged.
\<close>

theorem Put_present:
  assumes "items c key = Some old"
  shows "fst (Put c now key v) = None \<and>
         items (snd (Put c now key v)) = (items c)(key \<mapsto> v) \<and>
         timestamps (snd (Put c now key v)) = (timestamps c)(key \<mapsto> now) \<and>
         order (snd (Put c now key v)) = remove1 key (order c) @ [key] \<and>
         dom (items (snd (Put c now key v))) = dom (items c) \<and>
         evictions (snd (Put c now key v)) = evictions c \<and>
         OnEvict_calls (snd (Put c now key v)) = OnEvict_calls c \<and>
         hits (snd (Put c now key v)) = hits c \<and>
         misses (snd (Put c now key v)) = misses c"
  using assms by (auto simp: Put_def updateOrder_def)

theorem Put_present_witness:
  "(let c = run (NewCache \<lparr>Capacity = 2, TTL = 0, OnEvict = True\<rparr>)
              [(0, PutCall ''a'' ''1''), (1, PutCall ''b'' ''2'')]
    in items c ''a'' = Some ''1'' \<and> len_items c = Capacity c \<and>
       items (snd (Put c 5 ''a'' ''9'')) ''a'' = Some ''9'' \<and>
       items (snd (Put c 5 ''a'' ''9'')) ''b'' = Some ''2'' \<and>
       timestamps (snd (Put c 5 ''a'' ''9'')) ''a'' = Some 5 \<and>
       order (snd (Put c 5 ''a'' ''9'')) = [''b'', ''a''] \<and>
       evictions (snd (Put c 5 ''a'' ''9'')) = 0 \<and>
       OnEvict_calls (snd (Put c 5 ''a'' ''9'')) = [])"
proof -
  define c where
    "c = run (NewCache \<lparr>Capacity = 2, TTL = 0, OnEvict = True\<rparr>)
           [(0, PutCall ''a'' ''1''), (1, PutCall ''b'' ''2'')]"
  have h: "items c ''a'' = Some ''1''"
    and rest: "len_items c = Capacity c" "items c ''b'' = Some ''2''" "order c = [''a'', ''b'']"
      "evictions c = 0" "OnEvict_calls c = []"
    by (simp_all add: c_def method_defs)
  show ?thesis
    using Put_present [OF h, of 5 "''9''"] h rest
    unfolding c_def [symmetric] Let_def by simp
qed

text \<open>
  C7. In every state where the key is not in the map, \<open>Get\<close> fails with the not-found
  error for that key, and the state after the call is the state before it with one added
  to the count of misses: the map, the order slice, the timestamps and the counts of hits
  and evictions are unchanged.
\<close>

theorem Get_absent:
  assumes "items c key = None"
  shows "Get c now key = (Inl (KeyNotFoundError key), c\<lparr>misses := misses c + 1\<rparr>)"
  using assms by (simp add: Get_def)

theorem Get_absent_witness:
  "(let c = run (NewCache \<lparr>Capacity = 2, TTL = 0, OnEvict = True\<rparr>)
              [(0, PutCall ''a'' ''1'')]
    in items c ''z'' = None \<and>
       fst (Get c 3 ''z'') = Inl (KeyNotFoundError ''z'') \<and>
       misses (snd (Get c 3 ''z'')) = 1 \<and> hits (snd (Get c 3 ''z'')) = 0 \<and>
       evictions (snd (Get c 3 ''z'')) = 0 \<and>
       items (snd (Get c 3 ''z'')) = items c \<and> order (snd (Get c 3 ''z'')) = [''a''] \<and>
       timestamps (snd (Get c 3 ''z'')) = timestamps c)"
proof -
  define c where
    "c = run (NewCache \<lparr>Capacity = 2, TTL = 0, OnEvict = True\<rparr>) [(0, PutCall ''a'' ''1'')]"
  have h: "items c ''z'' = None"
    and rest: "misses c = 0" "hits c = 0" "evictions c = 0" "order c = [''a'']"
    by (simp_all add: c_def method_defs)
  show ?thesis
    using Get_absent [OF h, of 3] h rest
    unfolding c_def [symmetric] Let_def by simp
qed

text \<open>
  C8, with the bound that the 64-bit counters need. Run any sequence of calls \<open>xs\<close> from
  a fresh cache. \<open>Stats\<close> then returns, as 64-bit integers, the number of \<open>Get\<close>s that
  succeeded, the number of \<open>Get\<close>s that failed and the number of calls that evicted; so
  when no call evicted it returns the first two numbers and zero. When \<open>xs\<close> and the
  calls \<open>ys\<close> that follow it are fewer than \<open>2 ^ 63\<close> together (below that no 64-bit
  counter can wrap around), the counters read as these numbers, and each counter after
  \<open>xs\<close> is at most what it is after \<open>xs @ ys\<close>: the counters never go down.
\<close>

theorem counters_count_events:
  "fst (Stats (run (NewCache opts) xs)) =
     (of_nat (length (filter is_hit (replies (NewCache opts) xs))),
      of_nat (length (filter is_miss (replies (NewCache opts) xs))),
      of_nat (evictions_in (NewCache opts) xs)) \<and>
   (evictions_in (NewCache opts) xs = 0 \<longrightarrow>
      fst (Stats (run (NewCache opts) xs)) =
        (of_nat (length (filter is_hit (replies (NewCache opts) xs))),
         of_nat (length (filter is_miss (replies (NewCache opts) xs))), 0)) \<and>
   (length (xs @ ys) < 2 ^ 63 \<longrightarrow>
      sint (hits (run (NewCache opts) xs))
        = int (length (filter is_hit (replies (NewCache opts) xs))) \<and>
      sint (misses (run (NewCache opts) xs))
        = int (length (filter is_miss (replies (NewCache opts) xs))) \<and>
      sint (evictions (run (NewCache opts) xs)) = int (evictions_in (NewCache opts) xs) \<and>
      sint (hits (run (NewCache opts) xs)) \<le> sint (hits (run (NewCache opts) (xs @ ys))) \<and>
      sint (misses (run (NewCache opts) xs)) \<le> sint (misses (run (NewCache opts) (xs @ ys))) \<and>
      sint (evictions (run (NewCache opts) xs))
        \<le> sint (evictions (run (NewCache opts) (xs @ ys))))"
proof -
  define c0 where "c0 = NewCache opts"
  define H where "H zs = length (filter is_hit (replies c0 zs))" for zs
  define M where "M zs = length (filter is_miss (replies c0 zs))" for zs
  define E where "E zs = evictions_in c0 zs" for zs
  have zero: "hits c0 = 0" "misses c0 = 0" "evictions c0 = 0"
    by (simp_all add: c0_def NewCache_def)
  have word: "hits (run c0 zs) = of_nat (H zs)" "misses (run c0 zs) = of_nat (M zs)"
    "evictions (run c0 zs) = of_nat (E zs)" for zs
    using zero by (simp_all add: hits_run misses_run evictions_run H_def M_def E_def)
  have le_len: "H zs \<le> length zs" "M zs \<le> length zs" "E zs \<le> length zs" for zs
    using length_filter_le [of is_hit "replies c0 zs"] length_filter_le [of is_miss "replies c0 zs"]
    by (simp_all add: H_def M_def E_def length_replies evictions_in_le)
  have mono: "H xs \<le> H (xs @ ys)" "M xs \<le> M (xs @ ys)" "E xs \<le> E (xs @ ys)"
    by (simp_all add: H_def M_def E_def replies_append evictions_in_append)
  have small: "length zs < 2 ^ 63 \<Longrightarrow> sint (hits (run c0 zs)) = int (H zs) \<and>
      sint (misses (run c0 zs)) = int (M zs) \<and> sint (evictions (run c0 zs)) = int (E zs)" for zs
    using le_len [of zs] by (simp add: word sint_of_nat_small)
  have bounded: "sint (hits (run c0 xs)) = int (H xs) \<and>
      sint (misses (run c0 xs)) = int (M xs) \<and>
      sint (evictions (run c0 xs)) = int (E xs) \<and>
      sint (hits (run c0 xs)) \<le> sint (hits (run c0 (xs @ ys))) \<and>
      sint (misses (run c0 xs)) \<le> sint (misses (run c0 (xs @ ys))) \<and>
      sint (evictions (run c0 xs)) \<le> sint (evictions (run c0 (xs @ ys)))"
    if len: "length (xs @ ys) < 2 ^ 63"
  proof -
    have "length xs < 2 ^ 63"
      using len by simp
    from small [OF this] small [OF len] mono show ?thesis
      by simp
  qed
  have stats: "fst (Stats (run c0 xs)) = (of_nat (H xs), of_nat (M xs), of_nat (E xs))"
    by (simp add: Stats_def word)
  have stats0: "fst (Stats (run c0 xs)) = (of_nat (H xs), of_nat (M xs), 0)" if "E xs = 0"
    using stats that by simp
  show ?thesis
    unfolding c0_def [symmetric] H_def [symmetric] M_def [symmetric] E_def [symmetric]
    using stats stats0 bounded by blast
qed

theorem counters_count_events_witness:
  "(let c0 = NewCache \<lparr>Capacity = 2, TTL = 0, OnEvict = True\<rparr>;
        xs = [(0, PutCall ''a'' ''1''), (1, GetCall ''a''), (2, GetCall ''z'')];
        ys = [(3, GetCall ''a''), (4, StatsCall)]
    in length (xs @ ys) < 2 ^ 63 \<and>
       length (filter is_hit (replies c0 xs)) = 1 \<and>
       length (filter is_miss (replies c0 xs)) = 1 \<and>
       evictions_in c0 xs = 0 \<and>
       fst (Stats (run c0 xs)) = (1, 1, 0) \<and>
       sint (hits (run c0 xs)) = 1 \<and>
       sint (hits (run c0 xs)) \<le> sint (hits (run c0 (xs @ ys))) \<and>
       last (replies c0 (xs @ ys)) = StatsReply (2, 1, 0))"
proof -
  define c0 where "c0 = NewCache \<lparr>Capacity = 2, TTL = 0, OnEvict = True\<rparr>"
  define xs where "xs = [(0::int, PutCall ''a'' ''1''), (1, GetCall ''a''), (2, GetCall ''z'')]"
  define ys where "ys = [(3::int, GetCall ''a''), (4, StatsCall)]"
  have h: "length (xs @ ys) < 2 ^ 63"
    by (simp add: xs_def ys_def)
  have ev: "length (filter is_hit (replies c0 xs)) = 1"
    "length (filter is_miss (replies c0 xs)) = 1" "evictions_in c0 xs = 0"
    "last (replies c0 (xs @ ys)) = StatsReply (2, 1, 0)"
    by (simp_all add: c0_def xs_def ys_def method_defs)
  show ?thesis
    using counters_count_events [of "\<lparr>Capacity = 2, TTL = 0, OnEvict = True\<rparr>" xs ys] h ev
    unfolding c0_def [symmetric] xs_def [symmetric] ys_def [symmetric] Let_def
    by simp
qed

text \<open>
  C8, without the bound on the number of calls: on a fresh cache, after \<open>2 ^ 63 - 1\<close>
  calls of \<open>Get\<close> for a key that was never put, the count of misses reads
  \<open>2 ^ 63 - 1\<close>; the next such \<open>Get\<close> fails as well, and the count then reads
  \<open>- (2 ^ 63)\<close>. The counter went down, and it is not the number of failed \<open>Get\<close>s.
\<close>

theorem counters_wrap_counterexample:
  "sint (misses (run (NewCache \<lparr>Capacity = 2, TTL = 0, OnEvict = True\<rparr>)
           (replicate (2 ^ 63 - 1) (0, GetCall ''z'')))) = 2 ^ 63 - 1 \<and>
   sint (misses (run (NewCache \<lparr>Capacity = 2, TTL = 0, OnEvict = True\<rparr>)
           (replicate (2 ^ 63 - 1) (0, GetCall ''z'') @ [(0, GetCall ''z'')]))) = - (2 ^ 63) \<and>
   fst (Get (run (NewCache \<lparr>Capacity = 2, TTL = 0, OnEvict = True\<rparr>)
              (replicate (2 ^ 63 - 1) (0, GetCall ''z''))) 0 ''z'') = Inl (KeyNotFoundError ''z'')"
proof -
  define c0 where "c0 = NewCache \<lparr>Capacity = 2, TTL = 0, OnEvict = True\<rparr>"
  define c where "c = run c0 (replicate (2 ^ 63 - 1) (0, GetCall ''z''))"
  have absent: "items c0 ''z'' = None" and zero: "misses c0 = 0"
    by (simp_all add: c0_def NewCache_def)
  have c: "c = c0\<lparr>misses := of_nat (2 ^ 63 - 1)\<rparr>"
    unfolding c_def using run_failing_Gets [OF absent, of "2 ^ 63 - 1" 0] zero by simp
  have before: "sint (misses c) = 2 ^ 63 - 1"
    by (simp add: c)
  have get: "Get c 0 ''z'' = (Inl (KeyNotFoundError ''z''), c\<lparr>misses := misses c + 1\<rparr>)"
    using absent by (simp add: c Get_def)
  have after: "sint (misses (run c0 (replicate (2 ^ 63 - 1) (0, GetCall ''z'') @ [(0, GetCall ''z'')])))
      = - (2 ^ 63)"
    unfolding run_append c_def [symmetric] by (simp add: get) (simp add: c)
  show ?thesis
    using before after get unfolding c_def c0_def by simp
qed

text \<open>
  C9. In a state reached from a fresh cache: a \<open>Get\<close> that finds the key expired leaves
  the count of evictions as it was, though it calls the callback (when there is one) with
  the key and its value. Any call of a public method adds one to the count of evictions
  when it is a \<open>Put\<close> of a new key into a map that holds at least \<open>Capacity\<close> keys, with
  a key to give up, and leaves the count alone otherwise; and that \<open>Put\<close> calls the
  callback too, with the least recently used key and its value.
\<close>

theorem expiry_not_counted:
  assumes "c = run (NewCache opts) calls"
  shows "(TTL c > 0 \<and> items c key = Some v \<and> Since now (timestamps c key) > TTL c \<longrightarrow>
            fst (Get c now key) = Inl (ExpiredKeyError key) \<and>
            evictions (snd (Get c now key)) = evictions c \<and>
            OnEvict_calls (snd (Get c now key)) =
              (if OnEvict c then OnEvict_calls c @ [(key, v)] else OnEvict_calls c)) \<and>
         evictions (snd (apply_call c x)) = (if evicting c x then evictions c + 1 else evictions c) \<and>
         evictions c + 1 \<noteq> evictions c \<and>
         (evicting c x \<longrightarrow>
            items c (hd (order c)) \<noteq> None \<and>
            OnEvict_calls (snd (apply_call c x)) =
              (if OnEvict c then OnEvict_calls c @ [(hd (order c), the (items c (hd (order c))))]
               else OnEvict_calls c))"
proof -
  have inv: "invar c"
    using assms by (simp add: invar_run invar_NewCache)
  have expired: "evictions (snd (Get c now key)) = evictions c \<and>
      fst (Get c now key) = Inl (ExpiredKeyError key) \<and>
      OnEvict_calls (snd (Get c now key)) =
        (if OnEvict c then OnEvict_calls c @ [(key, v)] else OnEvict_calls c)"
    if "TTL c > 0" "items c key = Some v" "Since now (timestamps c key) > TTL c"
    using that by (simp add: Get_def remove_key_def)
  have count: "evictions (snd (apply_call c x)) = (if evicting c x then evictions c + 1 else evictions c)"
    by (simp add: evictions_apply_call)
  have called: "items c (hd (order c)) \<noteq> None \<and>
      OnEvict_calls (snd (apply_call c x)) =
        (if OnEvict c then OnEvict_calls c @ [(hd (order c), the (items c (hd (order c))))]
         else OnEvict_calls c)"
    if ev: "evicting c x"
  proof -
    obtain now' key' v' where x: "x = (now', PutCall key' v')"
      and absent: "items c key' = None" and full: "len_items c \<ge> Capacity c"
      and ne: "order c \<noteq> []"
      using ev by (cases x; cases "snd x") auto
    obtain k ks where ord: "order c = k # ks"
      using ne by (cases "order c") auto
    then obtain w where w: "items c k = Some w"
      using inv by (auto simp: invar_def)
    show ?thesis
      using x absent full ord w calls_evict [OF ord w]
      by (simp add: Put_def Let_def)
  qed
  show ?thesis
    using expired count called by simp
qed

theorem expiry_not_counted_witness:
  "(let c = run (NewCache \<lparr>Capacity = 1, TTL = 50, OnEvict = True\<rparr>) [(0, PutCall ''x'' ''v'')]
    in TTL c > 0 \<and> items c ''x'' = Some ''v'' \<and> Since 60 (timestamps c ''x'') > TTL c \<and>
       evicting c (10, PutCall ''y'' ''w'') \<and>
       evictions c = 0 \<and>
       evictions (snd (Get c 60 ''x'')) = 0 \<and>
       OnEvict_calls (snd (Get c 60 ''x'')) = [(''x'', ''v'')] \<and>
       evictions (snd (apply_call c (10, PutCall ''y'' ''w''))) = 1 \<and>
       OnEvict_calls (snd (apply_call c (10, PutCall ''y'' ''w''))) = [(''x'', ''v'')])"
proof -
  define c where
    "c = run (NewCache \<lparr>Capacity = 1, TTL = 50, OnEvict = True\<rparr>) [(0, PutCall ''x'' ''v'')]"
  have h: "TTL c > 0" "items c ''x'' = Some ''v''" "Since 60 (timestamps c ''x'') > TTL c"
    "evicting c (10, PutCall ''y'' ''w'')"
    and rest: "evictions c = 0" "OnEvict c" "OnEvict_calls c = []" "order c = [''x'']"
    by (simp_all add: c_def method_defs time_defs)
  show ?thesis
    using expiry_not_counted [OF c_def, of "''x''" "''v''" 60 "(10, PutCall ''y'' ''w'')"] h rest
    unfolding c_def [symmetric] Let_def by simp
qed

text \<open>
  C10. With capacity zero, in a state reached from a fresh cache: a \<open>Put\<close> of a key that
  is not in the map is \<open>evict\<close> followed by the insertion of the key; \<open>evict\<close> does
  nothing on an empty cache and otherwise removes the first key of the order slice, which
  is in the map; and after any \<open>Put\<close> the map holds the key just put and nothing else:
  one entry, one more than the capacity.
\<close>

theorem zero_capacity_holds_one:
  assumes "Capacity opts = 0" and "c = run (NewCache opts) calls"
  shows "(items c key = None \<longrightarrow>
            snd (Put c now key v) =
              (evict c)\<lparr>items := (items (evict c))(key \<mapsto> v),
                        timestamps := (timestamps (evict c))(key \<mapsto> now),
                        order := order (evict c) @ [key]\<rparr>) \<and>
         (order c = [] \<longrightarrow> evict c = c) \<and>
         (order c \<noteq> [] \<longrightarrow>
            items c (hd (order c)) \<noteq> None \<and>
            items (evict c) = (items c)(hd (order c) := None) \<and>
            order (evict c) = tl (order c)) \<and>
         items (snd (Put c now key v)) = [key \<mapsto> v] \<and>
         len_items (snd (Put c now key v)) = 1 \<and>
         len_items (snd (Put c now key v)) = Capacity (snd (Put c now key v)) + 1"
proof -
  have inv: "invar c"
    using assms(2) by (simp add: invar_run invar_NewCache)
  have cap: "Capacity c = 0"
    using assms by (simp add: opts_run NewCache_def)
  have "len_items (run (NewCache opts) calls) \<le> 1"
    using assms(1) by (intro len_run_zero invar_NewCache) (simp_all add: NewCache_def len_items_def)
  then have small: "len_items c \<le> 1"
    using assms(2) by simp
  have put: "snd (Put c now key v) =
      (evict c)\<lparr>items := (items (evict c))(key \<mapsto> v),
                timestamps := (timestamps (evict c))(key \<mapsto> now),
                order := order (evict c) @ [key]\<rparr>" if "items c key = None"
    using that cap by (simp add: Put_def Let_def len_items_def)
  show ?thesis
    using put evict_first [OF inv] items_Put_zero [OF inv cap small, of now key v]
      len_Put_zero [OF inv cap small, of now key v] cap
    by (simp add: evict_empty_order opts_Put)
qed

theorem zero_capacity_holds_one_witness:
  "(let opts = \<lparr>Capacity = 0, TTL = 0, OnEvict = True\<rparr>;
        c = run (NewCache opts) [(0, PutCall ''a'' ''1'')]
    in Capacity opts = 0 \<and> items c ''b'' = None \<and> order c = [''a''] \<and>
       items c ''a'' = Some ''1'' \<and>
       items (evict c) ''a'' = None \<and> order (evict c) = [] \<and>
       items (snd (Put c 1 ''b'' ''2'')) = [''b'' \<mapsto> ''2''] \<and>
       len_items (snd (Put c 1 ''b'' ''2'')) = 1)"
proof -
  define opts where "opts = \<lparr>Capacity = 0, TTL = 0, OnEvict = True\<rparr>"
  define c where "c = run (NewCache opts) [(0, PutCall ''a'' ''1'')]"
  have h: "Capacity opts = 0"
    and rest: "items c ''b'' = None" "order c = [''a'']" "items c ''a'' = Some ''1''"
    by (simp_all add: c_def opts_def method_defs)
  note t = zero_capacity_holds_one [OF h c_def, of "''b''" 1 "''2''"]
  have ev: "order c \<noteq> [] \<longrightarrow>
      items c (hd (order c)) \<noteq> None \<and>
      items (evict c) = (items c)(hd (order c) := None) \<and>
      order (evict c) = tl (order c)"
    using t by (elim conjE) assumption
  have put: "items (snd (Put c 1 ''b'' ''2'')) = [''b'' \<mapsto> ''2'']"
    using t by (elim conjE) assumption
  have one: "len_items (snd (Put c 1 ''b'' ''2'')) = 1"
    using t by (elim conjE) assumption
  show ?thesis
    using ev put one h rest
    unfolding opts_def [symmetric] c_def [symmetric] Let_def by simp
qed

end
